theory Spec2Isabelle
  imports Complex_Main
begin

section \<open>The environment of an asynchronous call\<close>

text \<open>
  The scripts are JavaScript running on a single-threaded event loop. Everything a
  protected operation can touch (the network, counters of a test stub, the wall clock) is
  collected in a world: \<open>clock\<close> is what \<^verbatim>\<open>Date.now()\<close> returns, in
  milliseconds, and \<open>env\<close> is the rest, kept polymorphic. An operation is the
  zero-argument callable handed to \<^verbatim>\<open>execute\<close>: awaited in a world, it settles
  with a rejection (\<open>Inl\<close>) or a result (\<open>Inr\<close>) and leaves a later world.
  Numbers are modelled as unbounded integers: the rounding of IEEE doubles beyond
  \<open>2^53\<close> is outside the model.
\<close>

record 'x world =
  clock :: int
  env :: 'x

type_synonym ('x, 'e, 'a) operation = "'x world \<Rightarrow> ('e + 'a) \<times> 'x world"

text \<open>
  What \<^verbatim>\<open>execute\<close> can throw: an \<^verbatim>\<open>Error\<close> object the breaker builds
  itself (\<^verbatim>\<open>new Error(message)\<close>), or the operation's own rejection, re-thrown
  as it is.
\<close>

datatype 'e thrown = JsError string | Thrown 'e

text \<open>A call-counter stub: the operation, counting its invocations in the environment.\<close>

definition counting :: "('x, 'e, 'a) operation \<Rightarrow> ('x \<times> nat, 'e, 'a) operation" where
  "counting fn w =
     (case fn \<lparr>clock = clock w, env = fst (env w)\<rparr> of
        (r, w') \<Rightarrow> (r, \<lparr>clock = clock w', env = (env w', Suc (snd (env w)))\<rparr>))"

section \<open>CircuitBreaker\<close>

datatype cb_state = CLOSED | OPEN | HALF_OPEN

text \<open>
  The fields of the class \<^verbatim>\<open>CircuitBreaker\<close> of \<^verbatim>\<open>advanced-patterns.js\<close>;
  the class of \<^verbatim>\<open>myOwnCodes/circuit-breaker-pattern.js\<close> has the same fields and
  \<^verbatim>\<open>successCount\<close> (its \<^verbatim>\<open>name\<close> is only printed).
\<close>

record circuit =
  threshold :: int
  timeout :: int
  failureCount :: int
  state :: cb_state
  nextAttempt :: int

record breaker = circuit +
  successCount :: int

subsection \<open>myOwnCodes/circuit-breaker-pattern.js\<close>

text \<open>\<^verbatim>\<open>constructor(threshold = 5, timeout = 60000, name)\<close>, called at time \<open>now\<close>.\<close>

definition new_CircuitBreaker :: "int option \<Rightarrow> int option \<Rightarrow> int \<Rightarrow> breaker" where
  "new_CircuitBreaker th tmo now =
     \<lparr>threshold = (case th of None \<Rightarrow> 5 | Some n \<Rightarrow> n),
      timeout = (case tmo of None \<Rightarrow> 60000 | Some n \<Rightarrow> n),
      failureCount = 0,
      state = CLOSED,
      nextAttempt = now,
      successCount = 0\<rparr>"

definition onSuccess :: "breaker \<Rightarrow> breaker" where
  "onSuccess b =
     (let b1 = b\<lparr>failureCount := 0\<rparr>;
          b2 = b1\<lparr>successCount := successCount b1 + 1\<rparr>
      in if state b2 = HALF_OPEN then b2\<lparr>state := CLOSED\<rparr> else b2)"

definition onFailure :: "int \<Rightarrow> breaker \<Rightarrow> breaker" where
  "onFailure now b =
     (let b1 = b\<lparr>failureCount := failureCount b + 1\<rparr>
      in if state b1 = HALF_OPEN
         then b1\<lparr>state := OPEN, nextAttempt := now + timeout b1\<rparr>
         else if failureCount b1 \<ge> threshold b1
         then b1\<lparr>state := OPEN, nextAttempt := now + timeout b1\<rparr>
         else b1)"

text \<open>
  \<^verbatim>\<open>execute(fn)\<close> suspends at \<^verbatim>\<open>await fn()\<close>, and other calls on the same
  breaker may run while it is suspended. So the method is two steps. \<open>execute_enter\<close>
  is the part before the \<^verbatim>\<open>await\<close>, at clock \<open>now\<close>: it throws the breaker's
  own error, or admits the call and leaves the breaker with which the operation is
  invoked. \<open>execute_settle\<close> is the part after it: the operation has settled with
  \<open>r\<close>, the clock is \<open>now\<close>, and \<open>b\<close> is the breaker as it is at that moment,
  whatever happened to it since the call was admitted.
\<close>

definition execute_enter :: "int \<Rightarrow> breaker \<Rightarrow> 'e thrown + breaker" where
  "execute_enter now b =
     (if state b = OPEN
      then if now < nextAttempt b
           then Inl (JsError ''Circuit breaker is OPEN. Service unavailable.'')
           else Inr (b\<lparr>state := HALF_OPEN\<rparr>)
      else Inr b)"

definition execute_settle :: "'e + 'a \<Rightarrow> int \<Rightarrow> breaker \<Rightarrow> ('e thrown + 'a) \<times> breaker" where
  "execute_settle r now b =
     (case r of
        Inr result \<Rightarrow> (Inr result, onSuccess b)
      | Inl error \<Rightarrow> (Inl (Thrown error), onFailure now b))"

text \<open>
  \<open>execute\<close> is one whole call during which nothing else touches the breaker: the two
  steps, with the operation run in between. It returns the result or the thrown value,
  the breaker and the world afterwards; the clock at the settlement is the one of the
  world the operation leaves.
\<close>

definition execute ::
  "('x, 'e, 'a) operation \<Rightarrow> breaker \<times> 'x world \<Rightarrow> ('e thrown + 'a) \<times> breaker \<times> 'x world" where
  "execute fn = (\<lambda>(b, w).
     case execute_enter (clock w) b of
       Inl err \<Rightarrow> (Inl err, b, w)
     | Inr b1 \<Rightarrow>
         (case fn w of
            (r, w') \<Rightarrow> (case execute_settle r (clock w') b1 of (res, b2) \<Rightarrow> (res, b2, w'))))"


subsection \<open>advanced-patterns.js\<close>

definition new_CircuitBreaker_adv :: "int option \<Rightarrow> int option \<Rightarrow> int \<Rightarrow> circuit" where
  "new_CircuitBreaker_adv th tmo now =
     \<lparr>threshold = (case th of None \<Rightarrow> 5 | Some n \<Rightarrow> n),
      timeout = (case tmo of None \<Rightarrow> 60000 | Some n \<Rightarrow> n),
      failureCount = 0,
      state = CLOSED,
      nextAttempt = now\<rparr>"

definition onSuccess_adv :: "circuit \<Rightarrow> circuit" where
  "onSuccess_adv b = b\<lparr>failureCount := 0, state := CLOSED\<rparr>"

definition onFailure_adv :: "int \<Rightarrow> circuit \<Rightarrow> circuit" where
  "onFailure_adv now b =
     (let b1 = b\<lparr>failureCount := failureCount b + 1\<rparr>
      in if failureCount b1 \<ge> threshold b1
         then b1\<lparr>state := OPEN, nextAttempt := now + timeout b1\<rparr>
         else b1)"

text \<open>The two steps of \<^verbatim>\<open>execute\<close> and the whole call, as above.\<close>

definition execute_enter_adv :: "int \<Rightarrow> circuit \<Rightarrow> 'e thrown + circuit" where
  "execute_enter_adv now b =
     (if state b = OPEN
      then if now < nextAttempt b
           then Inl (JsError ''Circuit breaker is OPEN'')
           else Inr (b\<lparr>state := HALF_OPEN\<rparr>)
      else Inr b)"

definition execute_settle_adv :: "'e + 'a \<Rightarrow> int \<Rightarrow> circuit \<Rightarrow> ('e thrown + 'a) \<times> circuit" where
  "execute_settle_adv r now b =
     (case r of
        Inr result \<Rightarrow> (Inr result, onSuccess_adv b)
      | Inl error \<Rightarrow> (Inl (Thrown error), onFailure_adv now b))"

definition execute_adv ::
  "('x, 'e, 'a) operation \<Rightarrow> circuit \<times> 'x world \<Rightarrow> ('e thrown + 'a) \<times> circuit \<times> 'x world" where
  "execute_adv fn = (\<lambda>(b, w).
     case execute_enter_adv (clock w) b of
       Inl err \<Rightarrow> (Inl err, b, w)
     | Inr b1 \<Rightarrow>
         (case fn w of
            (r, w') \<Rightarrow> (case execute_settle_adv r (clock w') b1 of (res, b2) \<Rightarrow> (res, b2, w'))))"

subsection \<open>Sequences of calls\<close>

text \<open>
  A sequence of calls made one after the other. Between two calls anything may happen to
  the world, so each call comes with the world it is made in; \<open>executes\<close> returns the
  breaker after the last call and \<open>settled_at\<close> the clock when a call's operation settles.
\<close>

fun executes :: "breaker \<Rightarrow> ('x world \<times> ('x, 'e, 'a) operation) list \<Rightarrow> breaker" where
  "executes b [] = b"
| "executes b ((w, fn) # cs) = executes (fst (snd (execute fn (b, w)))) cs"

fun executes_adv :: "circuit \<Rightarrow> ('x world \<times> ('x, 'e, 'a) operation) list \<Rightarrow> circuit" where
  "executes_adv b [] = b"
| "executes_adv b ((w, fn) # cs) = executes_adv (fst (snd (execute_adv fn (b, w)))) cs"

definition fails :: "'x world \<times> ('x, 'e, 'a) operation \<Rightarrow> bool" where
  "fails c = (case c of (w, fn) \<Rightarrow> isl (fst (fn w)))"

definition settled_at :: "'x world \<times> ('x, 'e, 'a) operation \<Rightarrow> int" where
  "settled_at c = (case c of (w, fn) \<Rightarrow> clock (snd (fn w)))"

subsection \<open>Every method of the breaker\<close>








text \<open>
  The stub of the test scenarios, \<^verbatim>\<open>simulateFailingAPI(shouldFail)\<close>: it throws
  or returns at once, so the world stays as it is. \<open>later\<close> is an operation that takes
  \<open>ms\<close> milliseconds before it settles as \<open>fn\<close> does.
\<close>

definition simulateFailingAPI :: "bool \<Rightarrow> ('x, string, string) operation" where
  "simulateFailingAPI shouldFail w =
     (if shouldFail then (Inl ''API Error: Service unavailable'', w)
      else (Inr ''API response'', w))"

definition later :: "int \<Rightarrow> ('x, 'e, 'a) operation \<Rightarrow> ('x, 'e, 'a) operation" where
  "later ms fn w = (case fn w of (r, w') \<Rightarrow> (r, w'\<lparr>clock := clock w' + ms\<rparr>))"

subsection \<open>CircuitBreakerWithFallback\<close>

text \<open>
  The subclass of \<^verbatim>\<open>myOwnCodes/circuit-breaker-pattern.js\<close>: \<^verbatim>\<open>execute\<close>
  wraps the base method in a \<^verbatim>\<open>try\<close>; the handler reads the state the base
  call left. \<open>fallbackFn\<close> is \<open>None\<close> when the constructor got no (truthy) fallback.
\<close>

definition execute_fallback ::
  "('x, 'e, 'a) operation option \<Rightarrow> ('x, 'e, 'a) operation \<Rightarrow> breaker \<times> 'x world
     \<Rightarrow> ('e thrown + 'a) \<times> breaker \<times> 'x world" where
  "execute_fallback fallbackFn fn = (\<lambda>(b, w).
     case execute fn (b, w) of
       (Inr result, b', w') \<Rightarrow> (Inr result, b', w')
     | (Inl error, b', w') \<Rightarrow>
         if state b' = OPEN \<and> fallbackFn \<noteq> None
         then (case the fallbackFn w' of
                 (Inr result, w'') \<Rightarrow> (Inr result, b', w'')
               | (Inl error', w'') \<Rightarrow> (Inl (Thrown error'), b', w''))
         else (Inl error, b', w'))"

section \<open>RateLimiter\<close>

text \<open>
  The value of \<^verbatim>\<open>timeWindow / maxRequests\<close>, a JavaScript number: the exact
  quotient (rounding is outside the model), or what a division by zero gives.
\<close>

datatype delay = Ms rat | PosInfinity | NegInfinity | NaN

definition js_div :: "int \<Rightarrow> int \<Rightarrow> delay" where
  "js_div a b =
     (if b \<noteq> 0 then Ms (of_int a / of_int b)
      else if 0 < a then PosInfinity
      else if a < 0 then NegInfinity
      else NaN)"

text \<open>The comparison \<^verbatim>\<open><\<close> of two such numbers.\<close>

fun delay_less :: "delay \<Rightarrow> delay \<Rightarrow> bool" where
  "delay_less NaN _ = False"
| "delay_less _ NaN = False"
| "delay_less (Ms x) (Ms y) = (x < y)"
| "delay_less (Ms x) PosInfinity = True"
| "delay_less NegInfinity (Ms y) = True"
| "delay_less NegInfinity PosInfinity = True"
| "delay_less _ _ = False"

text \<open>
  What an operation can reject with, as far as \<^verbatim>\<open>error.response?.status\<close> sees it:
  \<open>Nullish\<close> is \<^verbatim>\<open>null\<close> or \<^verbatim>\<open>undefined\<close>, on which reading
  \<^verbatim>\<open>.response\<close> throws a \<^verbatim>\<open>TypeError\<close>; for any other value
  \<open>response_status\<close> is the number \<^verbatim>\<open>error.response?.status\<close> evaluates to, or
  \<open>None\<close> when it is \<^verbatim>\<open>undefined\<close> (a plain \<^verbatim>\<open>Error\<close> has no
  \<^verbatim>\<open>response\<close>).
\<close>

datatype 'e rejection = Nullish | Rejection (response_status: "int option") (payload: 'e)

datatype ('i, 'e, 'a) event =
    Arrived 'i
  | Dispatched 'i
  | Resolved 'i 'a
  | Rejected 'i "'e rejection"
  | Requeued 'i
  | Scheduled delay
  | Fired delay
  | UncaughtTypeError

text \<open>
  A limiter and the part of the event loop that belongs to it. \<open>maxRequests\<close>,
  \<open>timeWindow\<close>, \<open>queue\<close> and \<open>processing\<close> are the fields of the class; a queue
  entry \<^verbatim>\<open>{requestFn, resolve, reject}\<close> is an item \<open>'i\<close>. \<open>awaiting\<close> holds the
  items of the activations of \<^verbatim>\<open>processQueue\<close> suspended at
  \<^verbatim>\<open>await requestFn()\<close>, that is, the calls in flight; \<open>timers\<close> the delays of
  the pending \<^verbatim>\<open>setTimeout\<close> callbacks; \<open>trace\<close> what has happened, oldest first.
\<close>

record ('i, 'e, 'a) limiter =
  maxRequests :: int
  timeWindow :: int
  queue :: "'i list"
  processing :: bool
  awaiting :: "'i list"
  timers :: "delay list"
  trace :: "('i, 'e, 'a) event list"

definition new_RateLimiter :: "int \<Rightarrow> int \<Rightarrow> ('i, 'e, 'a) limiter" where
  "new_RateLimiter maxReq window =
     \<lparr>maxRequests = maxReq, timeWindow = window, queue = [], processing = False,
      awaiting = [], timers = [], trace = []\<rparr>"

definition emit :: "('i, 'e, 'a) event \<Rightarrow> ('i, 'e, 'a) limiter \<Rightarrow> ('i, 'e, 'a) limiter" where
  "emit ev s = s\<lparr>trace := trace s @ [ev]\<rparr>"

text \<open>
  \<^verbatim>\<open>processQueue\<close> up to its \<^verbatim>\<open>await\<close>: the guard, the flag, the
  \<^verbatim>\<open>shift\<close> and the invocation of the request function.
\<close>

definition processQueue :: "('i, 'e, 'a) limiter \<Rightarrow> ('i, 'e, 'a) limiter" where
  "processQueue s =
     (if processing s \<or> queue s = [] then s
      else
        let item = hd (queue s)
        in emit (Dispatched item)
             (s\<lparr>processing := True, queue := tl (queue s), awaiting := awaiting s @ [item]\<rparr>))"

text \<open>\<^verbatim>\<open>enqueue\<close> (\<^verbatim>\<open>execute\<close> in \<^verbatim>\<open>mock-server.js\<close>).\<close>

definition enqueue :: "'i \<Rightarrow> ('i, 'e, 'a) limiter \<Rightarrow> ('i, 'e, 'a) limiter" where
  "enqueue item s = processQueue (emit (Arrived item) (s\<lparr>queue := queue s @ [item]\<rparr>))"

text \<open>\<^verbatim>\<open>waitAndRetry\<close>: the \<^verbatim>\<open>setTimeout\<close>, and its callback when it fires.\<close>

definition waitAndRetry :: "delay \<Rightarrow> ('i, 'e, 'a) limiter \<Rightarrow> ('i, 'e, 'a) limiter" where
  "waitAndRetry waitTime s = emit (Scheduled waitTime) (s\<lparr>timers := timers s @ [waitTime]\<rparr>)"

definition timer_callback :: "('i, 'e, 'a) limiter \<Rightarrow> ('i, 'e, 'a) limiter" where
  "timer_callback s = processQueue (s\<lparr>processing := False\<rparr>)"

text \<open>
  \<^verbatim>\<open>processQueue\<close> after its \<^verbatim>\<open>await\<close>, in
  \<^verbatim>\<open>myOwnCodes/mock-server.js\<close>. On a nullish rejection the handler itself throws:
  nothing is settled or scheduled, and the flag stays set.
\<close>

definition resume :: "'i \<Rightarrow> 'e rejection + 'a \<Rightarrow> ('i, 'e, 'a) limiter \<Rightarrow> ('i, 'e, 'a) limiter" where
  "resume item r s =
     (case r of
        Inr result \<Rightarrow>
          waitAndRetry (js_div (timeWindow s) (maxRequests s)) (emit (Resolved item result) s)
      | Inl error \<Rightarrow>
          (case error of
             Nullish \<Rightarrow> emit UncaughtTypeError s
           | Rejection st p \<Rightarrow>
               if st = Some 429
               then waitAndRetry (Ms 60000) (emit (Requeued item) (s\<lparr>queue := item # queue s\<rparr>))
               else waitAndRetry (js_div (timeWindow s) (maxRequests s))
                      (emit (Rejected item error) s)))"

text \<open>The same in \<^verbatim>\<open>mock-server.js\<close>, whose handler only rejects.\<close>

definition resume_ms :: "'i \<Rightarrow> 'e rejection + 'a \<Rightarrow> ('i, 'e, 'a) limiter \<Rightarrow> ('i, 'e, 'a) limiter" where
  "resume_ms item r s =
     (case r of
        Inr result \<Rightarrow>
          waitAndRetry (js_div (timeWindow s) (maxRequests s)) (emit (Resolved item result) s)
      | Inl error \<Rightarrow>
          waitAndRetry (js_div (timeWindow s) (maxRequests s)) (emit (Rejected item error) s))"

text \<open>
  What the outside does to a limiter: a caller submits an item, the request of the
  \<open>k\<close>-th suspended activation settles, or the \<open>k\<close>-th pending timer fires. Each is one
  run-to-completion turn of the event loop; \<open>step\<close> is \<open>None\<close> when there is no such
  activation or timer.
\<close>

datatype ('i, 'e, 'a) input =
    Enqueue 'i
  | Settle nat "'e rejection + 'a"
  | Timeout nat

datatype source = MyOwnCodes | MockServer

definition drop_nth :: "nat \<Rightarrow> 'b list \<Rightarrow> 'b list" where
  "drop_nth k xs = take k xs @ drop (Suc k) xs"

fun step :: "source \<Rightarrow> ('i, 'e, 'a) input \<Rightarrow> ('i, 'e, 'a) limiter \<Rightarrow> ('i, 'e, 'a) limiter option" where
  "step src (Enqueue item) s = Some (enqueue item s)"
| "step src (Settle k r) s =
     (if k < length (awaiting s)
      then let item = awaiting s ! k;
               s1 = s\<lparr>awaiting := drop_nth k (awaiting s)\<rparr>
           in Some (case src of MyOwnCodes \<Rightarrow> resume item r s1 | MockServer \<Rightarrow> resume_ms item r s1)
      else None)"
| "step src (Timeout k) s =
     (if k < length (timers s)
      then Some (timer_callback (emit (Fired (timers s ! k)) (s\<lparr>timers := drop_nth k (timers s)\<rparr>)))
      else None)"

fun run :: "source \<Rightarrow> ('i, 'e, 'a) input list \<Rightarrow> ('i, 'e, 'a) limiter \<Rightarrow> ('i, 'e, 'a) limiter option" where
  "run src [] s = Some s"
| "run src (i # is) s = (case step src i s of None \<Rightarrow> None | Some s' \<Rightarrow> run src is s')"

text \<open>The rate-limit signal, and the inputs in which no request settles with it.\<close>

definition rate_limited :: "'e rejection + 'a \<Rightarrow> bool" where
  "rate_limited r = (case r of Inl (Rejection st p) \<Rightarrow> st = Some 429 | _ \<Rightarrow> False)"

fun rate_limit_free :: "('i, 'e, 'a) input \<Rightarrow> bool" where
  "rate_limit_free (Settle k r) = (\<not> rate_limited r)"
| "rate_limit_free _ = True"

text \<open>Reading a trace: the items in the order they arrived and in the order they were dispatched.\<close>

fun arrivals :: "('i, 'e, 'a) event list \<Rightarrow> 'i list" where
  "arrivals [] = []"
| "arrivals (Arrived i # es) = i # arrivals es"
| "arrivals (_ # es) = arrivals es"

fun dispatches :: "('i, 'e, 'a) event list \<Rightarrow> 'i list" where
  "dispatches [] = []"
| "dispatches (Dispatched i # es) = i # dispatches es"
| "dispatches (_ # es) = dispatches es"

text \<open>
  A trace is paced by \<open>d\<close> when every dispatch but the first comes after a timer of delay
  \<open>d\<close> has fired since the dispatch before it. \<open>pace\<close> scans the trace: its state is
  \<open>None\<close> once a dispatch came too early, and otherwise tells whether the next one may come.
\<close>

fun pace :: "delay \<Rightarrow> bool option \<Rightarrow> ('i, 'e, 'a) event \<Rightarrow> bool option" where
  "pace d None ev = None"
| "pace d (Some ready) (Dispatched i) = (if ready then Some False else None)"
| "pace d (Some ready) (Fired d') = Some (ready \<or> d' = d)"
| "pace d (Some ready) _ = Some ready"

definition paced :: "delay \<Rightarrow> ('i, 'e, 'a) event list \<Rightarrow> bool" where
  "paced d tr = (foldl (pace d) (Some True) tr \<noteq> None)"

text \<open>
  Two properties of a limiter that the proofs below carry along a run. \<open>single_flight\<close>:
  while the flag is set there is at most one suspended activation or pending timer, and
  while it is clear there is none and nothing waits in the queue. \<open>in_order d\<close>: the
  pacing delay is \<open>d\<close>, the items dispatched so far followed by the queue are the
  arrivals, the trace is paced by \<open>d\<close> up to now, with the next dispatch allowed exactly
  when the flag is clear, and every pending timer has delay \<open>d\<close>.
\<close>

definition single_flight :: "('i, 'e, 'a) limiter \<Rightarrow> bool" where
  "single_flight s =
     (if processing s then length (awaiting s) + length (timers s) \<le> 1
      else awaiting s = [] \<and> timers s = [] \<and> queue s = [])"

definition in_order :: "delay \<Rightarrow> ('i, 'e, 'a) limiter \<Rightarrow> bool" where
  "in_order d s =
     (js_div (timeWindow s) (maxRequests s) = d \<and>
      dispatches (trace s) @ queue s = arrivals (trace s) \<and>
      foldl (pace d) (Some True) (trace s) = Some (\<not> processing s) \<and>
      list_all (\<lambda>t. t = d) (timers s))"

section \<open>APICache\<close>

text \<open>
  The class is the same in \<^verbatim>\<open>mock-server.js\<close> and \<^verbatim>\<open>myOwnCodes/mock-server.js\<close>.
  A JavaScript value that may be \<^verbatim>\<open>null\<close> is an \<open>option\<close>: \<^verbatim>\<open>get\<close> returns
  \<^verbatim>\<open>null\<close> for a missing entry, and the data stored may be \<^verbatim>\<open>null\<close> too.
  Each method takes the value of \<^verbatim>\<open>Date.now()\<close> at the call.
\<close>

record ('k, 'v) APICache =
  cache :: "'k \<rightharpoonup> ('v option \<times> int)"
  ttl :: int

definition new_APICache :: "int option \<Rightarrow> ('k, 'v) APICache" where
  "new_APICache t = \<lparr>cache = Map.empty, ttl = (case t of None \<Rightarrow> 60000 | Some n \<Rightarrow> n)\<rparr>"

definition APICache_get :: "int \<Rightarrow> 'k \<Rightarrow> ('k, 'v) APICache \<Rightarrow> 'v option \<times> ('k, 'v) APICache" where
  "APICache_get now key c =
     (case cache c key of
        None \<Rightarrow> (None, c)
      | Some (data, expiry) \<Rightarrow>
          if now > expiry then (None, c\<lparr>cache := (cache c)(key := None)\<rparr>)
          else (data, c))"

definition APICache_set :: "int \<Rightarrow> 'k \<Rightarrow> 'v option \<Rightarrow> ('k, 'v) APICache \<Rightarrow> ('k, 'v) APICache" where
  "APICache_set now key data c = c\<lparr>cache := (cache c)(key \<mapsto> (data, now + ttl c))\<rparr>"

definition APICache_clear :: "('k, 'v) APICache \<Rightarrow> ('k, 'v) APICache" where
  "APICache_clear c = c\<lparr>cache := Map.empty\<rparr>"

text \<open>A sequence of calls on one cache, each at its own time.\<close>

datatype ('k, 'v) cache_call = Get int 'k | Set int 'k "'v option" | Clear

fun apply_call :: "('k, 'v) cache_call \<Rightarrow> ('k, 'v) APICache \<Rightarrow> ('k, 'v) APICache" where
  "apply_call (Get now key) c = snd (APICache_get now key c)"
| "apply_call (Set now key data) c = APICache_set now key data c"
| "apply_call Clear c = APICache_clear c"

definition cache_calls :: "('k, 'v) cache_call list \<Rightarrow> ('k, 'v) APICache \<Rightarrow> ('k, 'v) APICache" where
  "cache_calls cs c = foldl (\<lambda>c x. apply_call x c) c cs"

fun sets_key :: "'k \<Rightarrow> ('k, 'v) cache_call \<Rightarrow> bool" where
  "sets_key k (Set now key data) = (key = k)"
| "sets_key k _ = False"

section \<open>Properties of the circuit breakers\<close>

subsection \<open>One call\<close>

lemma execute_open_early:
  "state b = OPEN \<Longrightarrow> clock w < nextAttempt b \<Longrightarrow>
   execute fn (b, w) = (Inl (JsError ''Circuit breaker is OPEN. Service unavailable.''), b, w)"
  by (simp add: execute_def execute_enter_def execute_settle_def)

lemma execute_adv_open_early:
  "state b = OPEN \<Longrightarrow> clock w < nextAttempt b \<Longrightarrow>
   execute_adv fn (b, w) = (Inl (JsError ''Circuit breaker is OPEN''), b, w)"
  by (simp add: execute_adv_def execute_enter_adv_def execute_settle_adv_def)

lemma counting_count: "snd (env (snd (counting fn w))) = Suc (snd (env w))"
  by (simp add: counting_def split: prod.splits)

lemma execute_admitted:
  assumes "\<not> (state b = OPEN \<and> clock w < nextAttempt b)"
  shows "execute fn (b, w) =
     (case fst (fn w) of
        Inr v \<Rightarrow> (Inr v, onSuccess (if state b = OPEN then b\<lparr>state := HALF_OPEN\<rparr> else b), snd (fn w))
      | Inl e \<Rightarrow> (Inl (Thrown e),
                  onFailure (clock (snd (fn w))) (if state b = OPEN then b\<lparr>state := HALF_OPEN\<rparr> else b),
                  snd (fn w)))"
  using assms by (cases "fn w") (auto simp: execute_def execute_enter_def execute_settle_def Let_def split: sum.splits)

lemma execute_adv_admitted:
  assumes "\<not> (state b = OPEN \<and> clock w < nextAttempt b)"
  shows "execute_adv fn (b, w) =
     (case fst (fn w) of
        Inr v \<Rightarrow> (Inr v, onSuccess_adv (if state b = OPEN then b\<lparr>state := HALF_OPEN\<rparr> else b), snd (fn w))
      | Inl e \<Rightarrow> (Inl (Thrown e),
                  onFailure_adv (clock (snd (fn w))) (if state b = OPEN then b\<lparr>state := HALF_OPEN\<rparr> else b),
                  snd (fn w)))"
  using assms by (cases "fn w") (auto simp: execute_adv_def execute_enter_adv_def execute_settle_adv_def Let_def split: sum.splits)

lemma counted_once:
  assumes "\<not> (state b = OPEN \<and> clock wc < nextAttempt b)"
  shows "snd (env (snd (snd (execute (counting fn) (b, wc))))) = Suc (snd (env wc))"
  using assms by (simp add: execute_admitted counting_count split: sum.splits)

lemma counted_once_adv:
  assumes "\<not> (state b = OPEN \<and> clock wc < nextAttempt b)"
  shows "snd (env (snd (snd (execute_adv (counting fn) (b, wc))))) = Suc (snd (env wc))"
  using assms by (simp add: execute_adv_admitted counting_count split: sum.splits)



lemma fails_opens:
  assumes "\<not> (state b = OPEN \<and> clock w < nextAttempt b)" "fst (fn w) = Inl e"
  shows "state (fst (snd (execute fn (b, w)))) = OPEN \<longleftrightarrow>
         (state b \<noteq> CLOSED \<or> threshold b \<le> failureCount b + 1)"
  using assms by (cases "state b") (auto simp: execute_admitted onFailure_def Let_def)


subsection \<open>Consecutive failures\<close>

lemma execute_fail_closed:
  assumes "state b = CLOSED" "fails (w, fn)"
  shows "fst (snd (execute fn (b, w))) =
     (if failureCount b + 1 \<ge> threshold b
      then b\<lparr>failureCount := failureCount b + 1, state := OPEN,
              nextAttempt := settled_at (w, fn) + timeout b\<rparr>
      else b\<lparr>failureCount := failureCount b + 1\<rparr>)"
  using assms
  by (cases "fn w") (auto simp: execute_def execute_enter_def execute_settle_def fails_def settled_at_def onFailure_def Let_def split: sum.splits)

lemma execute_adv_fail_closed:
  assumes "state b = CLOSED" "fails (w, fn)"
  shows "fst (snd (execute_adv fn (b, w))) =
     (if failureCount b + 1 \<ge> threshold b
      then b\<lparr>failureCount := failureCount b + 1, state := OPEN,
              nextAttempt := settled_at (w, fn) + timeout b\<rparr>
      else b\<lparr>failureCount := failureCount b + 1\<rparr>)"
  using assms
  by (cases "fn w") (auto simp: execute_adv_def execute_enter_adv_def execute_settle_adv_def fails_def settled_at_def onFailure_adv_def Let_def split: sum.splits)

lemma executes_below:
  assumes "state b = CLOSED" "\<forall>c \<in> set cs. fails c" "failureCount b + int (length cs) < threshold b"
  shows "executes b cs = b\<lparr>failureCount := failureCount b + int (length cs)\<rparr>"
  using assms
proof (induction cs arbitrary: b)
  case Nil
  then show ?case by simp
next
  case (Cons c cs)
  obtain w fn where c: "c = (w, fn)" by (cases c)
  let ?b = "b\<lparr>failureCount := failureCount b + 1\<rparr>"
  have 1: "fst (snd (execute fn (b, w))) = ?b"
    using Cons.prems c by (simp add: execute_fail_closed)
  have "executes ?b cs = ?b\<lparr>failureCount := failureCount ?b + int (length cs)\<rparr>"
    using Cons.prems by (intro Cons.IH) auto
  then show ?case using 1 c by (simp add: add.assoc)
qed

lemma executes_snoc: "executes b (cs @ [(w, fn)]) = fst (snd (execute fn (executes b cs, w)))"
  by (induction cs arbitrary: b) auto

lemma executes_adv_below:
  assumes "state b = CLOSED" "\<forall>c \<in> set cs. fails c" "failureCount b + int (length cs) < threshold b"
  shows "executes_adv b cs = b\<lparr>failureCount := failureCount b + int (length cs)\<rparr>"
  using assms
proof (induction cs arbitrary: b)
  case Nil
  then show ?case by simp
next
  case (Cons c cs)
  obtain w fn where c: "c = (w, fn)" by (cases c)
  let ?b = "b\<lparr>failureCount := failureCount b + 1\<rparr>"
  have 1: "fst (snd (execute_adv fn (b, w))) = ?b"
    using Cons.prems c by (simp add: execute_adv_fail_closed)
  have "executes_adv ?b cs = ?b\<lparr>failureCount := failureCount ?b + int (length cs)\<rparr>"
    using Cons.prems by (intro Cons.IH) auto
  then show ?case using 1 c by (simp add: add.assoc)
qed

lemma executes_adv_snoc:
  "executes_adv b (cs @ [(w, fn)]) = fst (snd (execute_adv fn (executes_adv b cs, w)))"
  by (induction cs arbitrary: b) auto

lemma executes_trip:
  assumes "state b = CLOSED" "failureCount b = 0" "\<forall>c \<in> set cs. fails c"
    "int (length cs) = threshold b" "cs \<noteq> []"
  shows "state (executes b cs) = OPEN \<and> nextAttempt (executes b cs) = settled_at (last cs) + timeout b"
proof -
  obtain cs' c where cs: "cs = cs' @ [c]" using assms(5) by (metis rev_exhaust)
  obtain w fn where c: "c = (w, fn)" by (cases c)
  let ?b = "b\<lparr>failureCount := failureCount b + int (length cs')\<rparr>"
  have "executes b cs' = ?b"
    using assms cs by (intro executes_below) auto
  then have "executes b cs = fst (snd (execute fn (?b, w)))"
    using cs c by (simp add: executes_snoc)
  also have "\<dots> = ?b\<lparr>failureCount := failureCount ?b + 1, state := OPEN,
              nextAttempt := settled_at (w, fn) + timeout ?b\<rparr>"
    using assms cs c by (subst execute_fail_closed) auto
  finally show ?thesis using cs c by simp
qed

lemma executes_adv_trip:
  assumes "state b = CLOSED" "failureCount b = 0" "\<forall>c \<in> set cs. fails c"
    "int (length cs) = threshold b" "cs \<noteq> []"
  shows "state (executes_adv b cs) = OPEN \<and> nextAttempt (executes_adv b cs) = settled_at (last cs) + timeout b"
proof -
  obtain cs' c where cs: "cs = cs' @ [c]" using assms(5) by (metis rev_exhaust)
  obtain w fn where c: "c = (w, fn)" by (cases c)
  let ?b = "b\<lparr>failureCount := failureCount b + int (length cs')\<rparr>"
  have "executes_adv b cs' = ?b"
    using assms cs by (intro executes_adv_below) auto
  then have "executes_adv b cs = fst (snd (execute_adv fn (?b, w)))"
    using cs c by (simp add: executes_adv_snoc)
  also have "\<dots> = ?b\<lparr>failureCount := failureCount ?b + 1, state := OPEN,
              nextAttempt := settled_at (w, fn) + timeout ?b\<rparr>"
    using assms cs c by (subst execute_adv_fail_closed) auto
  finally show ?thesis using cs c by simp
qed

subsection \<open>What holds after any sequence of method calls\<close>






subsection \<open>The fallback\<close>

lemma fallback_used:
  assumes "\<not> (state b = OPEN \<and> clock w < nextAttempt b)" "fst (fn w) = Inl e"
    "state (fst (snd (execute fn (b, w)))) = OPEN"
  shows "execute_fallback (Some fb) fn (b, w) =
     (map_sum Thrown id (fst (fb (snd (fn w)))), fst (snd (execute fn (b, w))), snd (fb (snd (fn w))))"
  using assms
  by (cases "fb (snd (fn w))") (auto simp: execute_fallback_def execute_admitted split: sum.splits prod.splits)

section \<open>Properties of the rate limiters\<close>

subsection \<open>What every run preserves\<close>

lemma dispatches_append: "dispatches (xs @ ys) = dispatches xs @ dispatches ys"
  by (induction xs rule: dispatches.induct) auto

lemma arrivals_append: "arrivals (xs @ ys) = arrivals xs @ arrivals ys"
  by (induction xs rule: arrivals.induct) auto

lemma processQueue_single_flight:
  assumes "processing s \<longrightarrow> length (awaiting s) + length (timers s) \<le> 1"
    and "\<not> processing s \<longrightarrow> awaiting s = [] \<and> timers s = []"
  shows "single_flight (processQueue s)"
  using assms by (auto simp: single_flight_def processQueue_def emit_def Let_def)

lemma processQueue_in_order:
  assumes "js_div (timeWindow s) (maxRequests s) = d"
    and "dispatches (trace s) @ queue s = arrivals (trace s)"
    and "foldl (pace d) (Some True) (trace s) = Some (\<not> processing s)"
    and "list_all (\<lambda>t. t = d) (timers s)"
  shows "in_order d (processQueue s)"
proof (cases "processing s \<or> queue s = []")
  case True
  then show ?thesis using assms by (simp add: in_order_def processQueue_def)
next
  case False
  then obtain x xs where q: "queue s = x # xs" by (cases "queue s") auto
  with False assms show ?thesis
    by (simp add: in_order_def processQueue_def emit_def Let_def dispatches_append arrivals_append)
qed

lemma single_flight_awaiting:
  assumes "single_flight s" "k < length (awaiting s)"
  shows "k = 0 \<and> awaiting s = [awaiting s ! k] \<and> timers s = [] \<and> processing s"
proof -
  from assms have p: "processing s"
    by (auto simp: single_flight_def split: if_splits)
  with assms have "length (awaiting s) + length (timers s) \<le> 1"
    by (simp add: single_flight_def)
  with assms(2) have l: "length (awaiting s) = 1" "length (timers s) = 0" "k = 0" by arith+
  then obtain x where "awaiting s = [x]" by (cases "awaiting s") auto
  with l p show ?thesis by simp
qed

lemma single_flight_timers:
  assumes "single_flight s" "k < length (timers s)"
  shows "k = 0 \<and> timers s = [timers s ! k] \<and> awaiting s = [] \<and> processing s"
proof -
  from assms have p: "processing s"
    by (auto simp: single_flight_def split: if_splits)
  with assms have "length (awaiting s) + length (timers s) \<le> 1"
    by (simp add: single_flight_def)
  with assms(2) have l: "length (timers s) = 1" "length (awaiting s) = 0" "k = 0" by arith+
  then obtain x where "timers s = [x]" by (cases "timers s") auto
  with l p show ?thesis by simp
qed

lemma drop_nth_single: "xs = [xs ! 0] \<Longrightarrow> drop_nth 0 xs = []"
  by (cases xs) (auto simp: drop_nth_def)

lemma step_single_flight:
  assumes "single_flight s" "step src i s = Some s'"
  shows "single_flight s'"
proof (cases i)
  case (Enqueue item)
  have "single_flight (processQueue (emit (Arrived item) (s\<lparr>queue := queue s @ [item]\<rparr>)))"
    using assms(1) by (intro processQueue_single_flight) (auto simp: single_flight_def emit_def split: if_splits)
  then show ?thesis using assms(2) Enqueue by (simp add: enqueue_def)
next
  case (Settle k r)
  with assms(2) have k: "k < length (awaiting s)" by (simp split: if_splits)
  from single_flight_awaiting[OF assms(1) k]
  have f: "k = 0" "awaiting s = [awaiting s ! 0]" "timers s = []" "processing s" by auto
  have d: "drop_nth 0 (awaiting s) = []" using f(2) by (rule drop_nth_single)
  show ?thesis using assms(2) Settle f d
    by (cases src; cases r)
       (auto simp: single_flight_def resume_def resume_ms_def waitAndRetry_def emit_def Let_def
             split: rejection.splits if_splits)
next
  case (Timeout k)
  with assms(2) have k: "k < length (timers s)" by (simp split: if_splits)
  from single_flight_timers[OF assms(1) k]
  have f: "k = 0" "timers s = [timers s ! 0]" "awaiting s = []" "processing s" by auto
  have d: "drop_nth 0 (timers s) = []" using f(2) by (rule drop_nth_single)
  have "single_flight (processQueue ((emit (Fired (timers s ! k)) (s\<lparr>timers := drop_nth k (timers s)\<rparr>))\<lparr>processing := False\<rparr>))"
    using f d by (intro processQueue_single_flight) (auto simp: emit_def)
  then show ?thesis using assms(2) Timeout k by (simp add: timer_callback_def)
qed

lemma step_in_order:
  assumes "single_flight s" "in_order d s" "rate_limit_free i" "step src i s = Some s'"
  shows "in_order d s'"
proof (cases i)
  case (Enqueue item)
  have "in_order d (processQueue (emit (Arrived item) (s\<lparr>queue := queue s @ [item]\<rparr>)))"
    using assms(2)
    by (intro processQueue_in_order) (auto simp: in_order_def emit_def dispatches_append arrivals_append)
  then show ?thesis using assms(4) Enqueue by (simp add: enqueue_def)
next
  case (Settle k r)
  with assms(4) have k: "k < length (awaiting s)" by (simp split: if_splits)
  from single_flight_awaiting[OF assms(1) k]
  have f: "k = 0" "awaiting s = [awaiting s ! 0]" "timers s = []" "processing s" by auto
  have d: "drop_nth 0 (awaiting s) = []" using f(2) by (rule drop_nth_single)
  have nr: "\<not> rate_limited r" using assms(3) Settle by simp
  show ?thesis using assms(2,4) Settle f d nr
    by (cases src; cases r)
       (auto simp: in_order_def resume_def resume_ms_def waitAndRetry_def emit_def Let_def
             rate_limited_def dispatches_append arrivals_append
             split: rejection.splits if_splits)
next
  case (Timeout k)
  with assms(4) have k: "k < length (timers s)" by (simp split: if_splits)
  from single_flight_timers[OF assms(1) k]
  have f: "k = 0" "timers s = [timers s ! 0]" "awaiting s = []" "processing s" by auto
  have d: "drop_nth 0 (timers s) = []" using f(2) by (rule drop_nth_single)
  have "list_all (\<lambda>t. t = d) [timers s ! 0]" using assms(2) f(2) by (simp add: in_order_def)
  then have t: "timers s ! 0 = d" by simp
  have "in_order d (processQueue ((emit (Fired (timers s ! k)) (s\<lparr>timers := drop_nth k (timers s)\<rparr>))\<lparr>processing := False\<rparr>))"
    using f d t assms(2)
    by (intro processQueue_in_order) (auto simp: in_order_def emit_def dispatches_append arrivals_append)
  then show ?thesis using assms(4) Timeout k by (simp add: timer_callback_def)
qed

lemma run_invariants:
  assumes "single_flight s" "run src ins s = Some s'"
  shows "single_flight s'"
    and "in_order d s \<Longrightarrow> list_all rate_limit_free ins \<Longrightarrow> in_order d s'"
  using assms
proof (induction ins arbitrary: s)
  case Nil
  { case 1 then show ?case by simp }
  { case 2 then show ?case by simp }
next
  case (Cons i ins)
  { case 1
    then obtain s1 where s1: "step src i s = Some s1" "run src ins s1 = Some s'"
      by (auto split: option.splits)
    from step_single_flight[OF 1(1) s1(1)] Cons.IH(1)[OF _ s1(2)] show ?case by simp }
  { case 2
    then obtain s1 where s1: "step src i s = Some s1" "run src ins s1 = Some s'"
      by (auto split: option.splits)
    from 2 have "in_order d s1" by (intro step_in_order[OF _ _ _ s1(1)]) auto
    with step_single_flight[OF 2(3) s1(1)] Cons.IH(2)[OF _ _ _ s1(2)] 2 show ?case by simp }
qed

lemma new_RateLimiter_invariants:
  "single_flight (new_RateLimiter m t)" "in_order (js_div t m) (new_RateLimiter m t)"
  by (simp_all add: single_flight_def in_order_def new_RateLimiter_def)

subsection \<open>What a settled request does\<close>

lemma run_append:
  "run src (xs @ ys) s = (case run src xs s of None \<Rightarrow> None | Some s1 \<Rightarrow> run src ys s1)"
  by (induction xs arbitrary: s) (auto split: option.splits)

lemma step_config:
  assumes "step src i s = Some s'"
  shows "maxRequests s' = maxRequests s \<and> timeWindow s' = timeWindow s"
proof (cases i)
  case (Enqueue item)
  with assms show ?thesis by (auto simp: enqueue_def processQueue_def emit_def Let_def)
next
  case (Settle k r)
  with assms show ?thesis
    by (cases src; cases r)
       (auto simp: resume_def resume_ms_def waitAndRetry_def emit_def Let_def
             split: if_splits rejection.splits)
next
  case (Timeout k)
  with assms show ?thesis
    by (auto simp: timer_callback_def processQueue_def emit_def Let_def split: if_splits)
qed

lemma run_config:
  "run src ins s = Some s' \<Longrightarrow> maxRequests s' = maxRequests s \<and> timeWindow s' = timeWindow s"
proof (induction ins arbitrary: s)
  case Nil
  then show ?case by simp
next
  case (Cons i ins)
  then obtain s1 where s1: "step src i s = Some s1" "run src ins s1 = Some s'"
    by (auto split: option.splits)
  from step_config[OF s1(1)] Cons.IH[OF s1(2)] show ?case by simp
qed

lemma settle_rate_limited:
  assumes "awaiting s = [item]" "timers s = []"
  shows "step MyOwnCodes (Settle 0 (Inl (Rejection (Some 429) p))) s =
     Some (s\<lparr>awaiting := [], queue := item # queue s, timers := [Ms 60000],
              trace := trace s @ [Requeued item, Scheduled (Ms 60000)]\<rparr>)"
  using assms by (simp add: resume_def waitAndRetry_def emit_def drop_nth_def)

lemma settle_other_failure:
  assumes "awaiting s = [item]" "timers s = []" "st \<noteq> Some 429"
  shows "step MyOwnCodes (Settle 0 (Inl (Rejection st q))) s =
     Some (s\<lparr>awaiting := [], timers := [js_div (timeWindow s) (maxRequests s)],
              trace := trace s @ [Rejected item (Rejection st q),
                                  Scheduled (js_div (timeWindow s) (maxRequests s))]\<rparr>)"
  using assms by (simp add: resume_def waitAndRetry_def emit_def drop_nth_def)

lemma settle_failure_ms:
  assumes "k < length (awaiting u)"
  shows "step MockServer (Settle k (Inl e)) u =
     Some (u\<lparr>awaiting := drop_nth k (awaiting u),
              timers := timers u @ [js_div (timeWindow u) (maxRequests u)],
              trace := trace u @ [Rejected (awaiting u ! k) e,
                                  Scheduled (js_div (timeWindow u) (maxRequests u))]\<rparr>)"
  using assms by (simp add: resume_ms_def waitAndRetry_def emit_def)

lemma requeue_cycle:
  assumes "awaiting s = [item]" "timers s = []" "processing s"
  shows "run MyOwnCodes [Settle 0 (Inl (Rejection (Some 429) p)), Timeout 0] s =
     Some (s\<lparr>trace := trace s @ [Requeued item, Scheduled (Ms 60000), Fired (Ms 60000), Dispatched item]\<rparr>)"
proof -
  let ?s1 = "s\<lparr>awaiting := [], queue := item # queue s, timers := [Ms 60000],
              trace := trace s @ [Requeued item, Scheduled (Ms 60000)]\<rparr>"
  have 1: "step MyOwnCodes (Settle 0 (Inl (Rejection (Some 429) p))) s = Some ?s1"
    using assms(1,2) by (rule settle_rate_limited)
  have 2: "step MyOwnCodes (Timeout 0) ?s1 =
     Some (s\<lparr>trace := trace s @ [Requeued item, Scheduled (Ms 60000), Fired (Ms 60000), Dispatched item]\<rparr>)"
    apply (simp add: drop_nth_def)
    apply (simp add: emit_def)
    apply (simp add: timer_callback_def processQueue_def emit_def)
    using assms
    apply (intro limiter.equality)
          apply simp_all
    done
  show ?thesis by (simp only: run.simps 1 2 option.case)
qed

lemma requeue_cycles:
  assumes "awaiting s = [item]" "timers s = []" "processing s"
  shows "run MyOwnCodes (concat (replicate n [Settle 0 (Inl (Rejection (Some 429) p)), Timeout 0])) s =
     Some (s\<lparr>trace := trace s @
        concat (replicate n [Requeued item, Scheduled (Ms 60000), Fired (Ms 60000), Dispatched item])\<rparr>)"
  using assms
proof (induction n arbitrary: s)
  case 0
  then show ?case by simp
next
  case (Suc n)
  let ?s1 = "s\<lparr>trace := trace s @ [Requeued item, Scheduled (Ms 60000), Fired (Ms 60000), Dispatched item]\<rparr>"
  have "run MyOwnCodes (concat (replicate (Suc n) [Settle 0 (Inl (Rejection (Some 429) p)), Timeout 0])) s =
        run MyOwnCodes (concat (replicate n [Settle 0 (Inl (Rejection (Some 429) p)), Timeout 0])) ?s1"
    using requeue_cycle[OF Suc.prems, of p]
    run_append[of MyOwnCodes "[Settle 0 (Inl (Rejection (Some 429) p)), Timeout 0]" _ s]
    by simp
  also have "\<dots> = Some (?s1\<lparr>trace := trace ?s1 @
        concat (replicate n [Requeued item, Scheduled (Ms 60000), Fired (Ms 60000), Dispatched item])\<rparr>)"
    using Suc.prems by (intro Suc.IH) auto
  finally show ?case by simp
qed

lemma cooldown_longer:
  "0 < m \<Longrightarrow> delay_less (js_div t m) (Ms 60000) = (t < 60000 * m)"
proof -
  assume m: "0 < m"
  have "(of_int t / of_int m < (60000::rat)) = (of_int t < (60000::rat) * of_int m)"
    using m by (simp add: pos_divide_less_eq)
  also have "\<dots> = (t < 60000 * m)"
    by (metis of_int_less_iff of_int_mult of_int_numeral)
  finally show ?thesis using m by (simp add: js_div_def)
qed

lemma settle_plain:
  assumes "k < length (awaiting s)"
  shows "step MyOwnCodes (Settle k (Inl (Rejection None p))) s =
     Some (s\<lparr>awaiting := drop_nth k (awaiting s),
              timers := timers s @ [js_div (timeWindow s) (maxRequests s)],
              trace := trace s @ [Rejected (awaiting s ! k) (Rejection None p),
                                  Scheduled (js_div (timeWindow s) (maxRequests s))]\<rparr>)"
  using assms by (simp add: resume_def waitAndRetry_def emit_def)

lemma settle_queue:
  assumes "step MyOwnCodes (Settle k r) s = Some s'"
  shows "queue s' = (if rate_limited r then awaiting s ! k # queue s else queue s)"
  using assms
  by (cases r)
     (auto simp: resume_def waitAndRetry_def emit_def rate_limited_def Let_def
           split: if_splits rejection.splits)

lemma rate_limited_iff: "rate_limited r = (\<exists>q. r = Inl (Rejection (Some 429) q))"
  by (auto simp: rate_limited_def split: sum.splits rejection.splits)

subsection \<open>The dispatch loop\<close>

text \<open>
  A new limiter of either file is driven by any sequence of submissions, settlements and
  timer firings. In every state it reaches at most one call is in flight, and no item
  waits while the limiter is idle. If no request settled with the rate-limit signal, the
  items dispatched so far, in the order of their dispatch, followed by the items still
  queued, are the items in the order they arrived; and between two successive dispatches
  a timer of delay \<^verbatim>\<open>timeWindow / maxRequests\<close> has fired.
\<close>

lemma one_at_a_time_in_arrival_order:
  fixes s :: "('i, 'e, 'a) limiter"
  assumes "run src ins (new_RateLimiter m t) = Some s"
  shows "length (awaiting s) \<le> 1 \<and>
         (\<not> processing s \<longrightarrow> queue s = []) \<and>
         (list_all rate_limit_free ins \<longrightarrow>
            dispatches (trace s) @ queue s = arrivals (trace s) \<and>
            paced (js_div t m) (trace s))"
proof -
  have sf: "single_flight s"
    using run_invariants(1)[OF new_RateLimiter_invariants(1) assms] .
  have "in_order (js_div t m) s" if "list_all rate_limit_free ins"
    using run_invariants(2)[OF new_RateLimiter_invariants(1) assms new_RateLimiter_invariants(2) that] .
  then show ?thesis using sf
    by (auto simp: single_flight_def in_order_def paced_def split: if_splits)
qed

lemma settle_success:
  assumes "awaiting s = [item]" "timers s = []"
  shows "step src (Settle 0 (Inr v)) s =
     Some (s\<lparr>awaiting := [], timers := [js_div (timeWindow s) (maxRequests s)],
              trace := trace s @ [Resolved item v,
                                  Scheduled (js_div (timeWindow s) (maxRequests s))]\<rparr>)"
  using assms
  by (cases src) (simp_all add: resume_def resume_ms_def waitAndRetry_def emit_def drop_nth_def)

lemma timeout_dispatches_head:
  assumes "timers s = [d]" "awaiting s = []" "processing s" "queue s = x # xs"
  shows "step src (Timeout 0) s =
     Some (s\<lparr>timers := [], queue := xs, awaiting := [x],
              trace := trace s @ [Fired d, Dispatched x]\<rparr>)"
  apply (simp add: drop_nth_def assms)
  apply (simp add: emit_def)
  apply (simp add: timer_callback_def processQueue_def emit_def assms)
  done

lemma timeout_goes_idle:
  assumes "timers s = [d]" "queue s = []"
  shows "step src (Timeout 0) s =
     Some (s\<lparr>timers := [], processing := False, trace := trace s @ [Fired d]\<rparr>)"
  apply (simp add: drop_nth_def assms)
  apply (simp add: emit_def)
  apply (simp add: timer_callback_def processQueue_def emit_def assms)
  done

lemma enqueue_idle:
  assumes "\<not> processing s" "queue s = []" "awaiting s = []"
  shows "step src (Enqueue x) s =
     Some (s\<lparr>processing := True, awaiting := [x], trace := trace s @ [Arrived x, Dispatched x]\<rparr>)"
  by (simp add: enqueue_def processQueue_def emit_def assms)






text \<open>
  What drives the loop, in every state a new limiter of either file can reach: a request
  that succeeds, or that fails with a value other than the rate-limit signal,
  \<^verbatim>\<open>null\<close> and \<^verbatim>\<open>undefined\<close>, settles its item and sets the timer of delay
  \<^verbatim>\<open>timeWindow / maxRequests\<close>; when that timer fires, the head of the queue is
  dispatched, or the limiter goes idle if nothing waits; and a submission to an idle
  limiter is dispatched at once.
\<close>

lemma pending_items_are_dispatched:
  fixes s :: "('i, 'e, 'a) limiter"
  assumes "run src ins (new_RateLimiter m t) = Some s"
  shows "(awaiting s = [item] \<longrightarrow>
            step src (Settle 0 (Inr v)) s =
              Some (s\<lparr>awaiting := [], timers := [js_div t m],
                       trace := trace s @ [Resolved item v, Scheduled (js_div t m)]\<rparr>)) \<and>
         (awaiting s = [item] \<and> st \<noteq> Some 429 \<longrightarrow>
            step src (Settle 0 (Inl (Rejection st q))) s =
              Some (s\<lparr>awaiting := [], timers := [js_div t m],
                       trace := trace s @ [Rejected item (Rejection st q),
                                           Scheduled (js_div t m)]\<rparr>)) \<and>
         (timers s = [d] \<and> queue s = x # xs \<longrightarrow>
            step src (Timeout 0) s =
              Some (s\<lparr>timers := [], queue := xs, awaiting := [x],
                       trace := trace s @ [Fired d, Dispatched x]\<rparr>)) \<and>
         (timers s = [d] \<and> queue s = [] \<longrightarrow>
            step src (Timeout 0) s =
              Some (s\<lparr>timers := [], processing := False, trace := trace s @ [Fired d]\<rparr>)) \<and>
         (\<not> processing s \<longrightarrow>
            step src (Enqueue x) s =
              Some (s\<lparr>processing := True, awaiting := [x],
                       trace := trace s @ [Arrived x, Dispatched x]\<rparr>))"
proof -
  have sf: "single_flight s"
    using run_invariants(1)[OF new_RateLimiter_invariants(1) assms] .
  have c: "maxRequests s = m" "timeWindow s = t"
    using run_config[OF assms] by (simp_all add: new_RateLimiter_def)
  have a: "timers s = []" if "awaiting s = [item]"
    using single_flight_awaiting[OF sf, of 0] that by simp
  have ti: "awaiting s = [] \<and> processing s" if "timers s = [d]"
    using single_flight_timers[OF sf, of 0] that by simp
  have idle: "queue s = [] \<and> awaiting s = []" if "\<not> processing s"
    using sf that by (simp add: single_flight_def)
  have 1: "awaiting s = [item] \<longrightarrow>
            step src (Settle 0 (Inr v)) s =
              Some (s\<lparr>awaiting := [], timers := [js_div t m],
                       trace := trace s @ [Resolved item v, Scheduled (js_div t m)]\<rparr>)"
    using settle_success[of s item src v] a c by simp
  have 2: "awaiting s = [item] \<and> st \<noteq> Some 429 \<longrightarrow>
            step src (Settle 0 (Inl (Rejection st q))) s =
              Some (s\<lparr>awaiting := [], timers := [js_div t m],
                       trace := trace s @ [Rejected item (Rejection st q),
                                           Scheduled (js_div t m)]\<rparr>)"
  proof (cases src)
    case MyOwnCodes
    then show ?thesis using settle_other_failure[of s item st q] a c by simp
  next
    case MockServer
    then show ?thesis
      using settle_failure_ms[of 0 s "Rejection st q"] a c by (auto simp: drop_nth_def)
  qed
  have 3: "timers s = [d] \<and> queue s = x # xs \<longrightarrow>
            step src (Timeout 0) s =
              Some (s\<lparr>timers := [], queue := xs, awaiting := [x],
                       trace := trace s @ [Fired d, Dispatched x]\<rparr>)"
    using timeout_dispatches_head[of s d x xs src] ti by blast
  have 4: "timers s = [d] \<and> queue s = [] \<longrightarrow>
            step src (Timeout 0) s =
              Some (s\<lparr>timers := [], processing := False, trace := trace s @ [Fired d]\<rparr>)"
    using timeout_goes_idle[of s d src] by blast
  have 5: "\<not> processing s \<longrightarrow>
            step src (Enqueue x) s =
              Some (s\<lparr>processing := True, awaiting := [x],
                       trace := trace s @ [Arrived x, Dispatched x]\<rparr>)"
    using enqueue_idle[of s src x] idle by blast
  from 1 2 3 4 5 show ?thesis by blast
qed

section \<open>The claims about the circuit breakers\<close>

text \<open>
  C1. A breaker in state CLOSED with \<open>failureCount\<close> 0 is given as many consecutive
  failing calls as its threshold (at least one). After the last of them the state is OPEN
  and \<open>nextAttempt\<close> is the time at which that call's operation failed plus the
  timeout; after every strictly shorter prefix the state is still CLOSED. This holds for
  the breaker of \<^verbatim>\<open>myOwnCodes/circuit-breaker-pattern.js\<close> (\<open>b\<close>) and for the one
  of \<^verbatim>\<open>advanced-patterns.js\<close> (\<open>a\<close>).
\<close>

theorem threshold_failures_open:
  fixes b :: breaker and a :: circuit
    and cs :: "('x world \<times> ('x, 'e, 'r) operation) list"
  assumes "\<forall>c \<in> set cs. fails c" and "int (length cs) = th" and "0 < th"
  shows "(state b = CLOSED \<and> failureCount b = 0 \<and> threshold b = th \<longrightarrow>
            state (executes b cs) = OPEN \<and>
            nextAttempt (executes b cs) = settled_at (last cs) + timeout b \<and>
            (\<forall>k < length cs. state (executes b (take k cs)) = CLOSED)) \<and>
         (state a = CLOSED \<and> failureCount a = 0 \<and> threshold a = th \<longrightarrow>
            state (executes_adv a cs) = OPEN \<and>
            nextAttempt (executes_adv a cs) = settled_at (last cs) + timeout a \<and>
            (\<forall>k < length cs. state (executes_adv a (take k cs)) = CLOSED))"
proof -
  have ne: "cs \<noteq> []" using assms by auto
  have pre: "\<forall>c \<in> set (take k cs). fails c" for k
    using assms(1) by (meson in_set_takeD)
  have 1: "state (executes b (take k cs)) = CLOSED"
    if "state b = CLOSED" "failureCount b = 0" "threshold b = th" "k < length cs" for k
    using that assms(2) by (subst executes_below[OF _ pre]) auto
  have 2: "state (executes_adv a (take k cs)) = CLOSED"
    if "state a = CLOSED" "failureCount a = 0" "threshold a = th" "k < length cs" for k
    using that assms(2) by (subst executes_adv_below[OF _ pre]) auto
  show ?thesis
    using executes_trip[OF _ _ assms(1) _ ne, of b] executes_adv_trip[OF _ _ assms(1) _ ne, of a]
      assms(2) 1 2 by simp
qed

theorem threshold_failures_open_witness:
  "list_all fails [(\<lparr>clock = 1000, env = ()\<rparr>, later 40 (simulateFailingAPI True)),
                   (\<lparr>clock = 2000, env = ()\<rparr>, later 40 (simulateFailingAPI True)),
                   (\<lparr>clock = 3000, env = ()\<rparr>, later 40 (simulateFailingAPI True))] \<and>
   state (executes (new_CircuitBreaker (Some 3) (Some 5000) 0)
     [(\<lparr>clock = 1000, env = ()\<rparr>, later 40 (simulateFailingAPI True)),
      (\<lparr>clock = 2000, env = ()\<rparr>, later 40 (simulateFailingAPI True)),
      (\<lparr>clock = 3000, env = ()\<rparr>, later 40 (simulateFailingAPI True))]) = OPEN \<and>
   nextAttempt (executes (new_CircuitBreaker (Some 3) (Some 5000) 0)
     [(\<lparr>clock = 1000, env = ()\<rparr>, later 40 (simulateFailingAPI True)),
      (\<lparr>clock = 2000, env = ()\<rparr>, later 40 (simulateFailingAPI True)),
      (\<lparr>clock = 3000, env = ()\<rparr>, later 40 (simulateFailingAPI True))]) = 8040 \<and>
   state (executes (new_CircuitBreaker (Some 3) (Some 5000) 0)
     [(\<lparr>clock = 1000, env = ()\<rparr>, later 40 (simulateFailingAPI True)),
      (\<lparr>clock = 2000, env = ()\<rparr>, later 40 (simulateFailingAPI True))]) = CLOSED \<and>
   state (executes_adv (new_CircuitBreaker_adv (Some 3) (Some 5000) 0)
     [(\<lparr>clock = 1000, env = ()\<rparr>, later 40 (simulateFailingAPI True)),
      (\<lparr>clock = 2000, env = ()\<rparr>, later 40 (simulateFailingAPI True)),
      (\<lparr>clock = 3000, env = ()\<rparr>, later 40 (simulateFailingAPI True))]) = OPEN"
proof -
  let ?cs = "[(\<lparr>clock = 1000, env = ()\<rparr>, later 40 (simulateFailingAPI True)),
      (\<lparr>clock = 2000, env = ()\<rparr>, later 40 (simulateFailingAPI True)),
      (\<lparr>clock = 3000, env = ()\<rparr>, later 40 (simulateFailingAPI True))]"
  have h1: "\<forall>c \<in> set ?cs. fails c"
    by (simp add: fails_def later_def simulateFailingAPI_def)
  have h2: "int (length ?cs) = 3" by simp
  have h3: "(0::int) < 3" by simp
  have s: "settled_at (last ?cs) = 3040"
    by (simp add: settled_at_def later_def simulateFailingAPI_def)
  have t2: "take 2 ?cs = [(\<lparr>clock = 1000, env = ()\<rparr>, later 40 (simulateFailingAPI True)),
      (\<lparr>clock = 2000, env = ()\<rparr>, later 40 (simulateFailingAPI True))]"
    by (simp add: numeral_2_eq_2)
  have k: "(2::nat) < length ?cs" by simp
  from threshold_failures_open[OF h1 h2 h3,
      of "new_CircuitBreaker (Some 3) (Some 5000) 0" "new_CircuitBreaker_adv (Some 3) (Some 5000) 0"]
  have "state (executes (new_CircuitBreaker (Some 3) (Some 5000) 0) ?cs) = OPEN"
    and "nextAttempt (executes (new_CircuitBreaker (Some 3) (Some 5000) 0) ?cs) = 8040"
    and "\<forall>k < length ?cs. state (executes (new_CircuitBreaker (Some 3) (Some 5000) 0) (take k ?cs)) = CLOSED"
    and "state (executes_adv (new_CircuitBreaker_adv (Some 3) (Some 5000) 0) ?cs) = OPEN"
    unfolding s by (simp_all add: new_CircuitBreaker_def new_CircuitBreaker_adv_def)
  with h1 k t2 show ?thesis unfolding list_all_iff by metis
qed

text \<open>
  C2. While a breaker is OPEN and the clock is strictly before \<open>nextAttempt\<close>,
  \<^verbatim>\<open>execute\<close> throws the breaker's own error at once; the breaker, with its
  \<open>failureCount\<close>, \<open>successCount\<close> and \<open>nextAttempt\<close>, and the world are left as
  they were, so the operation was not invoked: the counter of a counting stub stays put.
\<close>

theorem open_rejects_without_invoking:
  fixes b :: breaker and a :: circuit and fn :: "('x, 'e, 'r) operation"
  shows "(state b = OPEN \<and> clock w < nextAttempt b \<longrightarrow>
            execute fn (b, w) =
              (Inl (JsError ''Circuit breaker is OPEN. Service unavailable.''), b, w)) \<and>
         (state b = OPEN \<and> clock wc < nextAttempt b \<longrightarrow>
            snd (env (snd (snd (execute (counting fn) (b, wc))))) = snd (env wc)) \<and>
         (state a = OPEN \<and> clock w < nextAttempt a \<longrightarrow>
            execute_adv fn (a, w) = (Inl (JsError ''Circuit breaker is OPEN''), a, w)) \<and>
         (state a = OPEN \<and> clock wc < nextAttempt a \<longrightarrow>
            snd (env (snd (snd (execute_adv (counting fn) (a, wc))))) = snd (env wc))"
  by (simp add: execute_open_early execute_adv_open_early)

theorem open_rejects_without_invoking_witness:
  "state \<lparr>threshold = 3, timeout = 5000, failureCount = 3, state = OPEN,
          nextAttempt = 8000, successCount = 0\<rparr> = OPEN \<and>
   clock \<lparr>clock = 4000, env = ((), 0::nat)\<rparr> <
     nextAttempt \<lparr>threshold = 3, timeout = 5000, failureCount = 3, state = OPEN,
          nextAttempt = 8000, successCount = 0\<rparr> \<and>
   execute (counting (simulateFailingAPI False))
     (\<lparr>threshold = 3, timeout = 5000, failureCount = 3, state = OPEN,
          nextAttempt = 8000, successCount = 0\<rparr>, \<lparr>clock = 4000, env = ((), 0::nat)\<rparr>) =
     (Inl (JsError ''Circuit breaker is OPEN. Service unavailable.''),
      \<lparr>threshold = 3, timeout = 5000, failureCount = 3, state = OPEN,
          nextAttempt = 8000, successCount = 0\<rparr>, \<lparr>clock = 4000, env = ((), 0::nat)\<rparr>) \<and>
   execute_adv (counting (simulateFailingAPI False))
     (\<lparr>threshold = 3, timeout = 5000, failureCount = 3, state = OPEN,
          nextAttempt = 8000\<rparr>, \<lparr>clock = 4000, env = ((), 0::nat)\<rparr>) =
     (Inl (JsError ''Circuit breaker is OPEN''),
      \<lparr>threshold = 3, timeout = 5000, failureCount = 3, state = OPEN,
          nextAttempt = 8000\<rparr>, \<lparr>clock = 4000, env = ((), 0::nat)\<rparr>)"
  using open_rejects_without_invoking[
      of "\<lparr>threshold = 3, timeout = 5000, failureCount = 3, state = OPEN,
          nextAttempt = 8000, successCount = 0\<rparr>"
         "\<lparr>clock = 4000, env = ((), 0::nat)\<rparr>"
         "counting (simulateFailingAPI False)"
         "\<lparr>clock = 4000, env = (((), 0::nat), 0::nat)\<rparr>"
         "\<lparr>threshold = 3, timeout = 5000, failureCount = 3, state = OPEN, nextAttempt = 8000\<rparr>"]
  by simp




text \<open>
  C4. Whenever \<^verbatim>\<open>execute\<close> invokes the operation and the operation fails, in
  whatever state that leaves the breaker, the caller gets the operation's own failure,
  re-thrown as it is; and one call of \<^verbatim>\<open>execute\<close> invokes the operation at most
  once: a counting stub counts at most one more call. Both hold for the two breakers.
\<close>

theorem failure_is_passed_through:
  fixes b :: breaker and a :: circuit and fn :: "('x, 'e, 'r) operation"
  shows "(\<not> (state b = OPEN \<and> clock w < nextAttempt b) \<and> fst (fn w) = Inl e \<longrightarrow>
            fst (execute fn (b, w)) = Inl (Thrown e)) \<and>
         snd (env (snd (snd (execute (counting fn) (b, wc))))) \<le> Suc (snd (env wc)) \<and>
         (\<not> (state a = OPEN \<and> clock w < nextAttempt a) \<and> fst (fn w) = Inl e \<longrightarrow>
            fst (execute_adv fn (a, w)) = Inl (Thrown e)) \<and>
         snd (env (snd (snd (execute_adv (counting fn) (a, wc))))) \<le> Suc (snd (env wc))"
proof -
  have 1: "snd (env (snd (snd (execute (counting fn) (b, wc))))) \<le> Suc (snd (env wc))"
    by (cases "state b = OPEN \<and> clock wc < nextAttempt b")
       (simp_all add: execute_open_early counted_once)
  have 2: "snd (env (snd (snd (execute_adv (counting fn) (a, wc))))) \<le> Suc (snd (env wc))"
    by (cases "state a = OPEN \<and> clock wc < nextAttempt a")
       (simp_all add: execute_adv_open_early counted_once_adv)
  show ?thesis using 1 2 by (simp add: execute_admitted execute_adv_admitted)
qed

theorem failure_is_passed_through_witness:
  "\<not> (state (new_CircuitBreaker (Some 3) (Some 5000) 0) = OPEN \<and>
       clock \<lparr>clock = 1000, env = ()\<rparr> < nextAttempt (new_CircuitBreaker (Some 3) (Some 5000) 0)) \<and>
   fst (simulateFailingAPI True \<lparr>clock = 1000, env = ()\<rparr>) = Inl ''API Error: Service unavailable'' \<and>
   fst (execute (simulateFailingAPI True)
          (new_CircuitBreaker (Some 3) (Some 5000) 0, \<lparr>clock = 1000, env = ()\<rparr>)) =
     Inl (Thrown ''API Error: Service unavailable'') \<and>
   fst (execute_adv (simulateFailingAPI True)
          (new_CircuitBreaker_adv (Some 3) (Some 5000) 0, \<lparr>clock = 1000, env = ()\<rparr>)) =
     Inl (Thrown ''API Error: Service unavailable'')"
proof -
  have 1: "state (new_CircuitBreaker (Some 3) (Some 5000) 0) = CLOSED"
    and 2: "state (new_CircuitBreaker_adv (Some 3) (Some 5000) 0) = CLOSED"
    by (simp_all add: new_CircuitBreaker_def new_CircuitBreaker_adv_def)
  have 3: "fst (simulateFailingAPI True \<lparr>clock = 1000, env = ()\<rparr>) = Inl ''API Error: Service unavailable''"
    by (simp add: simulateFailingAPI_def)
  from failure_is_passed_through[where b="new_CircuitBreaker (Some 3) (Some 5000) 0"
      and w="\<lparr>clock = 1000, env = ()\<rparr>" and fn="simulateFailingAPI True"
      and e="''API Error: Service unavailable''"
      and wc="\<lparr>clock = 1000, env = ((), 0)\<rparr>"
      and a="new_CircuitBreaker_adv (Some 3) (Some 5000) 0"]
  show ?thesis using 1 2 3 by simp
qed




text \<open>
  C9. The breaker with a fallback admits a call, the operation fails, and that failure
  opens the circuit: the breaker was CLOSED one failure short of its threshold, or the
  call was the trial after an OPEN period. Then \<^verbatim>\<open>execute\<close> does not re-throw the
  operation's failure: the breaker is OPEN, the fallback is called in the world the
  operation left, and the caller gets what the fallback returns (or throws).
\<close>

theorem fallback_on_opening_failure:
  fixes b :: breaker and fn fb :: "('x, 'e, 'r) operation"
  assumes "\<not> (state b = OPEN \<and> clock w < nextAttempt b)"
    and "fst (fn w) = Inl e"
    and "state b = CLOSED \<and> threshold b \<le> failureCount b + 1 \<or> state b = HALF_OPEN \<or> state b = OPEN"
  shows "state (fst (snd (execute_fallback (Some fb) fn (b, w)))) = OPEN \<and>
         fst (execute_fallback (Some fb) fn (b, w)) = map_sum Thrown id (fst (fb (snd (fn w)))) \<and>
         snd (snd (execute_fallback (Some fb) fn (b, w))) = snd (fb (snd (fn w))) \<and>
         (\<forall>v. fst (fb (snd (fn w))) = Inr v \<longrightarrow> fst (execute_fallback (Some fb) fn (b, w)) = Inr v)"
proof -
  have "state (fst (snd (execute fn (b, w)))) = OPEN"
    using assms fails_opens[where b=b and w=w and fn=fn and e=e] by auto
  with assms fallback_used[where b=b and w=w and fn=fn and e=e and fb=fb] show ?thesis by auto
qed

theorem fallback_on_opening_failure_witness:
  "\<not> (state (new_CircuitBreaker (Some 1) (Some 8000) 0) = OPEN \<and>
       clock \<lparr>clock = 1000, env = ()\<rparr> < nextAttempt (new_CircuitBreaker (Some 1) (Some 8000) 0)) \<and>
   fst (simulateFailingAPI True \<lparr>clock = 1000, env = ()\<rparr>) = Inl ''API Error: Service unavailable'' \<and>
   state (new_CircuitBreaker (Some 1) (Some 8000) 0) = CLOSED \<and>
   threshold (new_CircuitBreaker (Some 1) (Some 8000) 0)
     \<le> failureCount (new_CircuitBreaker (Some 1) (Some 8000) 0) + 1 \<and>
   state (fst (snd (execute_fallback (Some (simulateFailingAPI False)) (simulateFailingAPI True)
              (new_CircuitBreaker (Some 1) (Some 8000) 0, \<lparr>clock = 1000, env = ()\<rparr>)))) = OPEN \<and>
   fst (execute_fallback (Some (simulateFailingAPI False)) (simulateFailingAPI True)
              (new_CircuitBreaker (Some 1) (Some 8000) 0, \<lparr>clock = 1000, env = ()\<rparr>)) =
     Inr ''API response''"
proof -
  let ?b = "new_CircuitBreaker (Some 1) (Some 8000) 0"
  let ?w = "\<lparr>clock = 1000, env = ()\<rparr>"
  have 1: "\<not> (state ?b = OPEN \<and> clock ?w < nextAttempt ?b)"
    by (simp add: new_CircuitBreaker_def)
  have 2: "fst (simulateFailingAPI True ?w) = Inl ''API Error: Service unavailable''"
    by (simp add: simulateFailingAPI_def)
  have 3: "state ?b = CLOSED \<and> threshold ?b \<le> failureCount ?b + 1"
    by (simp add: new_CircuitBreaker_def)
  then have 4: "state ?b = CLOSED \<and> threshold ?b \<le> failureCount ?b + 1 \<or> state ?b = HALF_OPEN \<or> state ?b = OPEN"
    by blast
  have 5: "fst (simulateFailingAPI False (snd (simulateFailingAPI True ?w))) = Inr ''API response''"
    by (simp add: simulateFailingAPI_def)
  from fallback_on_opening_failure[where b="?b" and w="?w" and fn="simulateFailingAPI True"
      and e="''API Error: Service unavailable''" and fb="simulateFailingAPI False"]
  show ?thesis using 1 2 3 4 5 by simp
qed

section \<open>The claims about the rate limiters\<close>



text \<open>
  C6, as the claim states it, fails twice. The limiter of \<^verbatim>\<open>mock-server.js\<close> has
  no branch for the rate-limit signal: a request that fails with status 429 is rejected
  and not queued again. And the cool-down of the limiter of
  \<^verbatim>\<open>myOwnCodes/mock-server.js\<close> is the constant 60000, which is not longer than
  the pacing interval of \<^verbatim>\<open>new RateLimiter(1, 60000)\<close>.
\<close>

theorem rate_limit_signal_not_always_requeued:
  "run MockServer [Enqueue ''A'', Settle 0 (Inl (Rejection (Some 429) ()))]
     (new_RateLimiter 5 60000 :: (string, unit, nat) limiter) =
   Some \<lparr>maxRequests = 5, timeWindow = 60000, queue = [], processing = True,
         awaiting = [], timers = [Ms 12000],
         trace = [Arrived ''A'', Dispatched ''A'', Rejected ''A'' (Rejection (Some 429) ()),
                  Scheduled (Ms 12000)]\<rparr> \<and>
   run MyOwnCodes [Enqueue ''A'', Settle 0 (Inl (Rejection (Some 429) ()))]
     (new_RateLimiter 1 60000 :: (string, unit, nat) limiter) =
   Some \<lparr>maxRequests = 1, timeWindow = 60000, queue = [''A''], processing = True,
         awaiting = [], timers = [Ms 60000],
         trace = [Arrived ''A'', Dispatched ''A'', Requeued ''A'', Scheduled (Ms 60000)]\<rparr> \<and>
   js_div 60000 1 = Ms 60000 \<and>
   \<not> delay_less (js_div 60000 1) (Ms 60000)"
  by (simp add: new_RateLimiter_def enqueue_def processQueue_def emit_def resume_def resume_ms_def
      waitAndRetry_def drop_nth_def js_div_def Let_def)

text \<open>
  C6, amended. In the limiter of \<^verbatim>\<open>myOwnCodes/mock-server.js\<close>, let \<open>item\<close> be
  the call in flight in a state a new limiter can reach. If its request fails with
  response status 429, the item goes back to the head of the queue, a timer of 60000 ms is
  set and nothing is rejected; when that timer fires the item is dispatched again; and
  this repeats for any number \<open>n\<close> of such failures, the trace showing only re-queues,
  timers and dispatches of the item. If the request fails with any other value that is not
  \<^verbatim>\<open>null\<close> or \<^verbatim>\<open>undefined\<close>, the promise is rejected with that value, the
  item is not queued again and the pacing timer is set. The cool-down is longer than the
  pacing interval exactly when \<^verbatim>\<open>timeWindow < 60000 * maxRequests\<close> (for a positive
  \<^verbatim>\<open>maxRequests\<close>). In the limiter of \<^verbatim>\<open>mock-server.js\<close> every failure,
  the rate-limit signal included, rejects the promise and sets the pacing timer.
\<close>

theorem rate_limit_signal_requeues:
  fixes s :: "('i, 'e, 'a) limiter" and u :: "('j, 'f, 'b) limiter"
  assumes "run MyOwnCodes ins (new_RateLimiter m t) = Some s" and "awaiting s = [item]"
  shows "step MyOwnCodes (Settle 0 (Inl (Rejection (Some 429) p))) s =
           Some (s\<lparr>awaiting := [], queue := item # queue s, timers := [Ms 60000],
                    trace := trace s @ [Requeued item, Scheduled (Ms 60000)]\<rparr>) \<and>
         run MyOwnCodes (concat (replicate n [Settle 0 (Inl (Rejection (Some 429) p)), Timeout 0])) s =
           Some (s\<lparr>trace := trace s @
                    concat (replicate n [Requeued item, Scheduled (Ms 60000),
                                         Fired (Ms 60000), Dispatched item])\<rparr>) \<and>
         (st \<noteq> Some 429 \<longrightarrow>
            step MyOwnCodes (Settle 0 (Inl (Rejection st q))) s =
              Some (s\<lparr>awaiting := [], timers := [js_div t m],
                       trace := trace s @ [Rejected item (Rejection st q),
                                           Scheduled (js_div t m)]\<rparr>)) \<and>
         (0 < m \<longrightarrow> delay_less (js_div t m) (Ms 60000) = (t < 60000 * m)) \<and>
         (k < length (awaiting u) \<longrightarrow>
            step MockServer (Settle k (Inl e)) u =
              Some (u\<lparr>awaiting := drop_nth k (awaiting u),
                       timers := timers u @ [js_div (timeWindow u) (maxRequests u)],
                       trace := trace u @ [Rejected (awaiting u ! k) e,
                                           Scheduled (js_div (timeWindow u) (maxRequests u))]\<rparr>))"
proof -
  have sf: "single_flight s"
    using run_invariants(1)[OF new_RateLimiter_invariants(1) assms(1)] .
  have "0 < length (awaiting s)" using assms(2) by simp
  from single_flight_awaiting[OF sf this]
  have f: "timers s = []" "processing s" by auto
  have c: "maxRequests s = m" "timeWindow s = t"
    using run_config[OF assms(1)] by (simp_all add: new_RateLimiter_def)
  show ?thesis
    using settle_rate_limited[OF assms(2) f(1), of p] requeue_cycles[OF assms(2) f, of n p]
      settle_other_failure[OF assms(2) f(1), of st q] cooldown_longer[of m t]
      settle_failure_ms[of k u e] c
    by simp
qed

theorem rate_limit_signal_requeues_witness:
  "run MyOwnCodes [Enqueue ''A'', Enqueue ''B''] (new_RateLimiter 5 60000) =
     Some (\<lparr>maxRequests = 5, timeWindow = 60000, queue = [''B''], processing = True,
            awaiting = [''A''], timers = [],
            trace = [Arrived ''A'', Dispatched ''A'', Arrived ''B'']\<rparr> :: (string, unit, nat) limiter) \<and>
   run MyOwnCodes [Settle 0 (Inl (Rejection (Some 429) ())), Timeout 0,
                   Settle 0 (Inl (Rejection (Some 429) ())), Timeout 0]
     (\<lparr>maxRequests = 5, timeWindow = 60000, queue = [''B''], processing = True,
            awaiting = [''A''], timers = [],
            trace = [Arrived ''A'', Dispatched ''A'', Arrived ''B'']\<rparr> :: (string, unit, nat) limiter) =
     Some \<lparr>maxRequests = 5, timeWindow = 60000, queue = [''B''], processing = True,
            awaiting = [''A''], timers = [],
            trace = [Arrived ''A'', Dispatched ''A'', Arrived ''B'',
                     Requeued ''A'', Scheduled (Ms 60000), Fired (Ms 60000), Dispatched ''A'',
                     Requeued ''A'', Scheduled (Ms 60000), Fired (Ms 60000), Dispatched ''A'']\<rparr> \<and>
   step MyOwnCodes (Settle 0 (Inl (Rejection (Some 500) ())))
     (\<lparr>maxRequests = 5, timeWindow = 60000, queue = [''B''], processing = True,
            awaiting = [''A''], timers = [],
            trace = [Arrived ''A'', Dispatched ''A'', Arrived ''B'']\<rparr> :: (string, unit, nat) limiter) =
     Some \<lparr>maxRequests = 5, timeWindow = 60000, queue = [''B''], processing = True,
            awaiting = [], timers = [Ms 12000],
            trace = [Arrived ''A'', Dispatched ''A'', Arrived ''B'',
                     Rejected ''A'' (Rejection (Some 500) ()), Scheduled (Ms 12000)]\<rparr> \<and>
   delay_less (js_div 60000 5) (Ms 60000)"
proof -
  let ?s = "\<lparr>maxRequests = 5, timeWindow = 60000, queue = [''B''], processing = True,
            awaiting = [''A''], timers = [],
            trace = [Arrived ''A'', Dispatched ''A'', Arrived ''B'']\<rparr> :: (string, unit, nat) limiter"
  have r: "run MyOwnCodes [Enqueue ''A'', Enqueue ''B''] (new_RateLimiter 5 60000) = Some ?s"
    by (simp add: new_RateLimiter_def enqueue_def processQueue_def emit_def Let_def)
  have a: "awaiting ?s = [''A'']" by simp
  have d: "js_div 60000 5 = Ms 12000" by (simp add: js_div_def)
  have n: "concat (replicate 2 xs) = xs @ xs" for xs :: "'z list"
    by (simp add: numeral_2_eq_2)
  have m: "(0::int) < 5" and t: "((60000::int) < 60000 * 5) = True" by simp_all
  note c = rate_limit_signal_requeues[OF r a, where p="()" and n=2 and st="Some 500" and q="()"
      and k=0 and u="?s" and e="Nullish"]
  from c have "run MyOwnCodes (concat (replicate 2 [Settle 0 (Inl (Rejection (Some 429) ())), Timeout 0])) ?s =
           Some (?s\<lparr>trace := trace ?s @
                    concat (replicate 2 [Requeued ''A'', Scheduled (Ms 60000),
                                         Fired (Ms 60000), Dispatched ''A''])\<rparr>)"
    by blast
  then have 1: "run MyOwnCodes [Settle 0 (Inl (Rejection (Some 429) ())), Timeout 0,
                   Settle 0 (Inl (Rejection (Some 429) ())), Timeout 0] ?s =
     Some \<lparr>maxRequests = 5, timeWindow = 60000, queue = [''B''], processing = True,
            awaiting = [''A''], timers = [],
            trace = [Arrived ''A'', Dispatched ''A'', Arrived ''B'',
                     Requeued ''A'', Scheduled (Ms 60000), Fired (Ms 60000), Dispatched ''A'',
                     Requeued ''A'', Scheduled (Ms 60000), Fired (Ms 60000), Dispatched ''A'']\<rparr>"
    by (simp add: n del: run.simps step.simps)
  from c have "step MyOwnCodes (Settle 0 (Inl (Rejection (Some 500) ()))) ?s =
              Some (?s\<lparr>awaiting := [], timers := [js_div 60000 5],
                       trace := trace ?s @ [Rejected ''A'' (Rejection (Some 500) ()),
                                           Scheduled (js_div 60000 5)]\<rparr>)"
    by simp
  then have 2: "step MyOwnCodes (Settle 0 (Inl (Rejection (Some 500) ()))) ?s =
     Some \<lparr>maxRequests = 5, timeWindow = 60000, queue = [''B''], processing = True,
            awaiting = [], timers = [Ms 12000],
            trace = [Arrived ''A'', Dispatched ''A'', Arrived ''B'',
                     Rejected ''A'' (Rejection (Some 500) ()), Scheduled (Ms 12000)]\<rparr>"
    by (simp add: d del: step.simps)
  from c m have 3: "delay_less (js_div 60000 5) (Ms 60000)"
     unfolding t by blast
  from r 1 2 3 show ?thesis by blast
qed

text \<open>
  C10. In the limiter of \<^verbatim>\<open>myOwnCodes/mock-server.js\<close>, a request in flight that
  fails with an error without a \<^verbatim>\<open>response\<close>, such as the plain
  \<^verbatim>\<open>Error("Rate limit exceeded")\<close>, has its promise rejected with that error and
  only the pacing timer is set; the queue is left as it is. Whatever the request settles
  with, its item is put back at the head of the queue exactly when the outcome is a
  rejection whose \<^verbatim>\<open>response.status\<close> is 429.
\<close>

theorem plain_error_is_rejected:
  fixes s :: "('i, 'e, 'a) limiter"
  assumes "k < length (awaiting s)"
  shows "step MyOwnCodes (Settle k (Inl (Rejection None p))) s =
           Some (s\<lparr>awaiting := drop_nth k (awaiting s),
                    timers := timers s @ [js_div (timeWindow s) (maxRequests s)],
                    trace := trace s @ [Rejected (awaiting s ! k) (Rejection None p),
                                        Scheduled (js_div (timeWindow s) (maxRequests s))]\<rparr>) \<and>
         (\<forall>r s'. step MyOwnCodes (Settle k r) s = Some s' \<longrightarrow>
            queue s' = (if \<exists>q. r = Inl (Rejection (Some 429) q)
                        then awaiting s ! k # queue s else queue s))"
  using settle_plain[OF assms, of p] settle_queue[of k _ s] rate_limited_iff
  by metis

theorem plain_error_is_rejected_witness:
  "0 < length (awaiting (\<lparr>maxRequests = 5, timeWindow = 60000, queue = [''B''], processing = True,
            awaiting = [''A''], timers = [],
            trace = [Arrived ''A'', Dispatched ''A'', Arrived ''B'']\<rparr> :: (string, string, nat) limiter)) \<and>
   step MyOwnCodes (Settle 0 (Inl (Rejection None ''Rate limit exceeded'')))
     (\<lparr>maxRequests = 5, timeWindow = 60000, queue = [''B''], processing = True,
            awaiting = [''A''], timers = [],
            trace = [Arrived ''A'', Dispatched ''A'', Arrived ''B'']\<rparr> :: (string, string, nat) limiter) =
     Some \<lparr>maxRequests = 5, timeWindow = 60000, queue = [''B''], processing = True,
            awaiting = [], timers = [Ms 12000],
            trace = [Arrived ''A'', Dispatched ''A'', Arrived ''B'',
                     Rejected ''A'' (Rejection None ''Rate limit exceeded''),
                     Scheduled (Ms 12000)]\<rparr>"
proof -
  let ?s = "\<lparr>maxRequests = 5, timeWindow = 60000, queue = [''B''], processing = True,
            awaiting = [''A''], timers = [],
            trace = [Arrived ''A'', Dispatched ''A'', Arrived ''B'']\<rparr> :: (string, string, nat) limiter"
  have k: "0 < length (awaiting ?s)" by simp
  have d: "js_div 60000 5 = Ms 12000" by (simp add: js_div_def)
  from plain_error_is_rejected[OF k, of "''Rate limit exceeded''"]
  have "step MyOwnCodes (Settle 0 (Inl (Rejection None ''Rate limit exceeded''))) ?s =
      Some (?s\<lparr>awaiting := drop_nth 0 (awaiting ?s),
                    timers := timers ?s @ [js_div (timeWindow ?s) (maxRequests ?s)],
                    trace := trace ?s @ [Rejected (awaiting ?s ! 0) (Rejection None ''Rate limit exceeded''),
                                        Scheduled (js_div (timeWindow ?s) (maxRequests ?s))]\<rparr>)"
    by blast
  then show ?thesis using k by (simp add: d drop_nth_def)
qed

section \<open>The claim about the cache\<close>

lemma apply_call_keeps_absent:
  assumes "cache c k = None" "\<not> sets_key k x"
  shows "cache (apply_call x c) k = None"
proof (cases x)
  case (Get now key)
  with assms show ?thesis
    by (auto simp: APICache_get_def split: option.splits prod.splits)
next
  case (Set now key data)
  with assms show ?thesis by (simp add: APICache_set_def)
next
  case Clear
  then show ?thesis by (simp add: APICache_clear_def)
qed

lemma cache_calls_keep_absent:
  assumes "cache c k = None" "list_all (\<lambda>x. \<not> sets_key k x) cs"
  shows "cache (cache_calls cs c) k = None"
  using assms unfolding cache_calls_def
proof (induction cs arbitrary: c)
  case Nil
  then show ?case by simp
next
  case (Cons x cs)
  from Cons.prems have "cache (apply_call x c) k = None"
    by (intro apply_call_keeps_absent) auto
  with Cons.prems show ?case by (simp add: Cons.IH)
qed

text \<open>
  C7. \<^verbatim>\<open>get(k)\<close> returns \<^verbatim>\<open>null\<close> and leaves the cache as it is when there
  is no entry for \<open>k\<close>, which is the case after any calls on a new cache that never set
  \<open>k\<close>. When there is an entry and the time of the read is strictly after its expiry,
  \<^verbatim>\<open>get(k)\<close> returns \<^verbatim>\<open>null\<close> and deletes the entry. \<^verbatim>\<open>set(k, v)\<close>
  stores \<open>v\<close> with expiry now plus \<open>ttl\<close> whatever was there before and touches
  nothing else. So a \<^verbatim>\<open>get(k)\<close> after \<^verbatim>\<open>set(k, v)\<close> returns \<open>v\<close> as long
  as its time is not after the time of the \<^verbatim>\<open>set\<close> plus \<open>ttl\<close>, and
  \<^verbatim>\<open>null\<close> after that.
\<close>

theorem cache_get_set:
  fixes c :: "('k, 'v) APICache"
  shows "(cache c k = None \<longrightarrow> APICache_get now k c = (None, c)) \<and>
         (list_all (\<lambda>x. \<not> sets_key k x) cs \<longrightarrow>
            APICache_get now k (cache_calls cs (new_APICache t)) =
              (None, cache_calls cs (new_APICache t))) \<and>
         (cache c k = Some (d, expiry) \<and> expiry < now \<longrightarrow>
            APICache_get now k c = (None, c\<lparr>cache := (cache c)(k := None)\<rparr>)) \<and>
         APICache_set now k v c = c\<lparr>cache := (cache c)(k \<mapsto> (v, now + ttl c))\<rparr> \<and>
         (now' \<le> now + ttl c \<longrightarrow>
            APICache_get now' k (APICache_set now k v c) = (v, APICache_set now k v c)) \<and>
         (now + ttl c < now' \<longrightarrow>
            APICache_get now' k (APICache_set now k v c) = (None, c\<lparr>cache := (cache c)(k := None)\<rparr>))"
proof -
  have "cache (cache_calls cs (new_APICache t)) k = None"
    if "list_all (\<lambda>x. \<not> sets_key k x) cs"
    using that by (intro cache_calls_keep_absent) (simp_all add: new_APICache_def)
  then show ?thesis
    by (simp add: APICache_get_def APICache_set_def)
qed

theorem cache_get_set_witness:
  "cache (new_APICache (Some 300000) :: (string, string) APICache) ''IBM'' = None \<and>
   fst (APICache_get 1000 ''IBM'' (new_APICache (Some 300000) :: (string, string) APICache)) = None \<and>
   list_all (\<lambda>x. \<not> sets_key ''IBM'' x) [Set 0 ''AAPL'' (Some ''150.00''), Get 10 ''IBM'', Clear] \<and>
   fst (APICache_get 1000 ''IBM''
     (cache_calls [Set 0 ''AAPL'' (Some ''150.00''), Get 10 ''IBM'', Clear] (new_APICache (Some 300000)))) = None \<and>
   (1000::int) + ttl (new_APICache (Some 300000) :: (string, string) APICache) < 400000 \<and>
   (301000::int) \<le> 1000 + ttl (new_APICache (Some 300000) :: (string, string) APICache) \<and>
   fst (APICache_get 301000 ''IBM''
     (APICache_set 1000 ''IBM'' (Some ''150.00'') (new_APICache (Some 300000)))) = Some ''150.00'' \<and>
   fst (APICache_get 400000 ''IBM''
     (APICache_set 1000 ''IBM'' (Some ''150.00'') (new_APICache (Some 300000)))) = None \<and>
   cache (snd (APICache_get 400000 ''IBM''
     (APICache_set 1000 ''IBM'' (Some ''150.00'') (new_APICache (Some 300000))))) ''IBM'' = None"
proof -
  let ?c = "new_APICache (Some 300000) :: (string, string) APICache"
  let ?cs = "[Set 0 ''AAPL'' (Some ''150.00''), Get 10 ''IBM'', Clear] :: (string, string) cache_call list"
  have 1: "cache ?c ''IBM'' = None" by (simp add: new_APICache_def)
  have 2: "list_all (\<lambda>x. \<not> sets_key ''IBM'' x) ?cs" by simp
  have 3: "(1000::int) + ttl ?c < 400000" and 4: "(301000::int) \<le> 1000 + ttl ?c"
    by (simp_all add: new_APICache_def)
  note w = cache_get_set[where c="?c" and k="''IBM''" and cs="?cs" and t="Some 300000"
      and v="Some ''150.00''" and now=1000 and d=None and expiry=0]
  from w[where now'=301000] 4
  have "APICache_get 301000 ''IBM'' (APICache_set 1000 ''IBM'' (Some ''150.00'') ?c) =
      (Some ''150.00'', APICache_set 1000 ''IBM'' (Some ''150.00'') ?c)"
    by blast
  then have 5: "fst (APICache_get 301000 ''IBM'' (APICache_set 1000 ''IBM'' (Some ''150.00'') ?c)) = Some ''150.00''"
    by (simp only: fst_conv)
  from w[where now'=400000] 3
  have 6: "APICache_get 400000 ''IBM'' (APICache_set 1000 ''IBM'' (Some ''150.00'') ?c) =
      (None, ?c\<lparr>cache := (cache ?c)(''IBM'' := None)\<rparr>)"
    by blast
  from w[where now'=0] 1
  have "APICache_get 1000 ''IBM'' ?c = (None, ?c)" by blast
  then have 7: "fst (APICache_get 1000 ''IBM'' ?c) = None" by (simp only: fst_conv)
  from w[where now'=0] 2
  have "APICache_get 1000 ''IBM'' (cache_calls ?cs ?c) = (None, cache_calls ?cs ?c)" by blast
  then have 8: "fst (APICache_get 1000 ''IBM'' (cache_calls ?cs ?c)) = None" by (simp only: fst_conv)
  have 9: "fst (APICache_get 400000 ''IBM'' (APICache_set 1000 ''IBM'' (Some ''150.00'') ?c)) = None"
    and 10: "cache (snd (APICache_get 400000 ''IBM'' (APICache_set 1000 ''IBM'' (Some ''150.00'') ?c))) ''IBM'' = None"
    unfolding 6 by simp_all
  from 1 2 3 4 5 7 8 9 10 show ?thesis by blast
qed

end
